theory Spec2Isabelle
  imports Main "HOL-Library.Word" "HOL-Library.Signed_Division"
begin

section \<open>The solver of \<^verbatim>\<open>examples/data/abc207_b.solver.cpp\<close>\<close>

text \<open>
  The program is one arithmetic function over \<^verbatim>\<open>int64_t\<close> and an entry point that reads
  four numbers and prints one.
  \<^verbatim>\<open>
  int64_t solve(int64_t A, int64_t B, int64_t C, int64_t D) {
      int64_t ans = -1;
      if (D*C - B > 0){
          ans = (A + D * C - B - 1) / (D*C - B);
      }
      return ans;
  }
  \<close>
  An \<^verbatim>\<open>int64_t\<close> is a 64-bit word read in two's complement by \<open>sint\<close>. The operators
  \<^verbatim>\<open>+\<close>, \<^verbatim>\<open>-\<close> and \<^verbatim>\<open>*\<close> are the word operations, which wrap around modulo \<open>2 ^ 64\<close>
  (C++ leaves signed overflow undefined; wrap-around is what the 64-bit targets compute).
  The comparison \<^verbatim>\<open>> 0\<close> is the signed one.
\<close>

type_synonym int64 = "64 word"

text \<open>
  The operator \<^verbatim>\<open>/\<close> on \<^verbatim>\<open>int64_t\<close> truncates towards zero, which on \<open>int\<close> is
  \<open>k sdiv l = sgn k * sgn l * (\<bar>k\<bar> div \<bar>l\<bar>)\<close>. It has no value for a zero divisor, nor
  for the least number divided by \<open>- 1\<close>: both stop the program, and are results of their
  own here.
\<close>

datatype trap = DivideByZero | DivideOverflow

definition int64_div :: "int64 \<Rightarrow> int64 \<Rightarrow> trap + int64" where
  "int64_div a b =
     (if b = 0 then Inl DivideByZero
      else if a = - (2 ^ 63) \<and> b = - 1 then Inl DivideOverflow
      else Inr (word_of_int (sint a sdiv sint b)))"

definition solve :: "int64 \<Rightarrow> int64 \<Rightarrow> int64 \<Rightarrow> int64 \<Rightarrow> trap + int64" where
  "solve A B C D =
     (if 0 <s D * C - B then int64_div (A + D * C - B - 1) (D * C - B)
      else Inr (- 1))"

text \<open>
  The same function read over the unbounded integers, where nothing wraps: the
  arithmetic the specification speaks of. Its division is guarded by the same test.
\<close>

definition solve_int :: "int \<Rightarrow> int \<Rightarrow> int \<Rightarrow> int \<Rightarrow> int" where
  "solve_int A B C D =
     (if 0 < D * C - B then (A + D * C - B - 1) sdiv (D * C - B) else - 1)"

text \<open>An integer is representable when it lies in the range of \<^verbatim>\<open>int64_t\<close>.\<close>

definition int64_ok :: "int \<Rightarrow> bool" where
  "int64_ok k \<longleftrightarrow> - (2 ^ 63) \<le> k \<and> k < 2 ^ 63"

section \<open>The entry point\<close>

text \<open>
  \<^verbatim>\<open>
  int main() {
      std::ios::sync_with_stdio(false);
      std::cin.tie(nullptr);
      int64_t A, B, C, D;
      std::cin >> A >> B >> C >> D;
      auto ans = solve(A, B, C, D);
      std::cout << ans << '\n';
      return 0;
  }
  \<close>
  Standard input is a string, standard output is the string the program wrote, and the
  program's result is both together with the exit code. The two calls on the streams
  before the declarations change how the streams are buffered, not what is read or
  written, and have no counterpart here.
\<close>

subsection \<open>Formatted input of an \<^verbatim>\<open>int64_t\<close>\<close>

text \<open>
  \<^verbatim>\<open>std::cin >> x\<close> in the default locale and the default (decimal) base: white space
  is skipped, then an optional sign and the longest run of digits are consumed and
  converted. The classification of characters is that of the \<^verbatim>\<open>"C"\<close> locale.
\<close>

definition isspace :: "char \<Rightarrow> bool" where
  "isspace c \<longleftrightarrow> c \<in> set [CHR '' '', CHR 0x09, CHR 0x0A, CHR 0x0B, CHR 0x0C, CHR 0x0D]"

definition isdigit :: "char \<Rightarrow> bool" where
  "isdigit c \<longleftrightarrow> (48 :: nat) \<le> of_char c \<and> of_char c \<le> (57 :: nat)"

definition digit_val :: "char \<Rightarrow> nat" where
  "digit_val c = of_char c - 48"

fun dec_value :: "nat \<Rightarrow> string \<Rightarrow> nat" where
  "dec_value acc [] = acc"
| "dec_value acc (c # cs) = dec_value (10 * acc + digit_val c) cs"

text \<open>
  The stream is the input not yet consumed and whether the stream is still good (no
  failure and no end of input met so far).
\<close>

record istream =
  unread :: string
  good :: bool

text \<open>
  The variables of \<^verbatim>\<open>main\<close> are declared without a value, so a variable is an
  optional number: \<open>None\<close> until an extraction stores into it. One extraction:
  \<^item> on a stream that is not good nothing is read and the variable is left as it was;
  \<^item> so it is when only white space is left (the end of input is met, the stream fails);
  \<^item> with no digit where the number should stand, \<open>0\<close> is stored and the stream fails;
  \<^item> a number beyond the range is stored as the nearest bound, and the stream fails;
  \<^item> otherwise the number is stored; a number that ends with the input leaves the
    stream at its end, hence no longer good.
\<close>

definition read_int64 :: "istream \<Rightarrow> int64 option \<Rightarrow> istream \<times> int64 option" where
  "read_int64 s x =
     (if \<not> good s then (s, x)
      else
        let b = dropWhile isspace (unread s) in
        if b = [] then (\<lparr>unread = [], good = False\<rparr>, x)
        else
          let neg = (hd b = CHR ''-'');
              b1 = (if hd b = CHR ''-'' \<or> hd b = CHR ''+'' then tl b else b);
              ds = takeWhile isdigit b1;
              rest = dropWhile isdigit b1
          in
            if ds = [] then (\<lparr>unread = rest, good = False\<rparr>, Some 0)
            else
              let v = (if neg then - int (dec_value 0 ds) else int (dec_value 0 ds)) in
              if 2 ^ 63 \<le> v then (\<lparr>unread = rest, good = False\<rparr>, Some (2 ^ 63 - 1))
              else if v < - (2 ^ 63) then (\<lparr>unread = rest, good = False\<rparr>, Some (- (2 ^ 63)))
              else (\<lparr>unread = rest, good = (rest \<noteq> [])\<rparr>, Some (word_of_int v)))"

subsection \<open>Formatted output of an \<^verbatim>\<open>int64_t\<close>\<close>

text \<open>
  \<^verbatim>\<open>std::cout << ans\<close> with the default flags: decimal digits without padding, and a
  minus sign before a negative number.
\<close>

definition digit_char :: "nat \<Rightarrow> char" where
  "digit_char n = char_of (48 + n)"

fun show_nat :: "nat \<Rightarrow> string" where
  "show_nat n = (if n < 10 then [digit_char n] else show_nat (n div 10) @ [digit_char (n mod 10)])"

declare show_nat.simps [simp del]

definition show_int64 :: "int64 \<Rightarrow> string" where
  "show_int64 x =
     (if sint x < 0 then CHR ''-'' # show_nat (nat (- sint x)) else show_nat (nat (sint x)))"

subsection \<open>The program\<close>

text \<open>
  A run ends in one of three ways: the program exits, with what it wrote and its exit
  code; the division stops it; or it passes to \<^verbatim>\<open>solve\<close> a variable that no extraction
  has stored into, for which C++ defines no behaviour.
\<close>

datatype outcome = Exit string int | Trapped trap | Undefined

definition main :: "string \<Rightarrow> outcome" where
  "main input =
     (let s0 = \<lparr>unread = input, good = True\<rparr>;
          (s1, A) = read_int64 s0 None;
          (s2, B) = read_int64 s1 None;
          (s3, C) = read_int64 s2 None;
          (s4, D) = read_int64 s3 None
      in case (A, B, C, D) of
           (Some a, Some b, Some c, Some d) \<Rightarrow>
             (case solve a b c d of
                Inr ans \<Rightarrow> Exit (show_int64 ans @ [CHR 0x0A]) 0
              | Inl t \<Rightarrow> Trapped t)
         | _ \<Rightarrow> Undefined)"

subsection \<open>Well-formed input\<close>

text \<open>
  A token is a numeral of \<open>x\<close> when it is an optional sign and at least one digit, and
  its decimal value is the two's-complement value of \<open>x\<close> (which is therefore in range).
\<close>

definition numeral_of :: "string \<Rightarrow> int64 \<Rightarrow> bool" where
  "numeral_of t x \<longleftrightarrow>
     (case t of
        [] \<Rightarrow> False
      | c # cs \<Rightarrow>
          if c = CHR ''-'' then cs \<noteq> [] \<and> list_all isdigit cs \<and> - int (dec_value 0 cs) = sint x
          else if c = CHR ''+'' then cs \<noteq> [] \<and> list_all isdigit cs \<and> int (dec_value 0 cs) = sint x
          else list_all isdigit t \<and> int (dec_value 0 t) = sint x)"

subsection \<open>The decimal representation\<close>

text \<open>
  What standard output should hold for a number, said without the printing function:
  digits with no leading zero (a lone \<open>0\<close> for zero), with a minus sign before them
  exactly when the number is negative, whose decimal value is the number's magnitude.
\<close>

definition plain_digits :: "string \<Rightarrow> bool" where
  "plain_digits ds \<longleftrightarrow> ds \<noteq> [] \<and> list_all isdigit ds \<and> (ds = ''0'' \<or> hd ds \<noteq> CHR ''0'')"

definition decimal_repr :: "string \<Rightarrow> int \<Rightarrow> bool" where
  "decimal_repr s k \<longleftrightarrow>
     (case s of
        [] \<Rightarrow> False
      | c # cs \<Rightarrow>
          if c = CHR ''-'' then k < 0 \<and> plain_digits cs \<and> - int (dec_value 0 cs) = k
          else 0 \<le> k \<and> plain_digits s \<and> int (dec_value 0 s) = k)"

section \<open>Truncating division by a positive divisor\<close>

lemma sdiv_nonneg: "0 \<le> n \<Longrightarrow> 0 < d \<Longrightarrow> (n :: int) sdiv d = n div d"
  by (simp add: signed_divide_int_def sgn_if)

lemma sdiv_neg: "n < 0 \<Longrightarrow> 0 < d \<Longrightarrow> (n :: int) sdiv d = - ((- n) div d)"
  by (simp add: signed_divide_int_def sgn_if)

lemma int_div_le_self:
  assumes "0 \<le> (n::int)" "0 < d"
  shows "n div d \<le> n"
proof -
  have q: "0 \<le> n div d" using assms by (simp add: pos_imp_zdiv_nonneg_iff)
  have "n div d * 1 \<le> n div d * d" using q assms by (intro mult_left_mono) simp_all
  moreover have "0 \<le> n mod d" using assms by simp
  moreover have "n div d * d + n mod d = n" by simp
  ultimately show ?thesis by linarith
qed

text \<open>The quotient is no larger in magnitude than the dividend, so it is representable.\<close>

lemma sdiv_ok:
  assumes "int64_ok n" "0 < d"
  shows "int64_ok (n sdiv d)"
proof (cases "0 \<le> n")
  case True
  then have "n sdiv d = n div d" using assms by (simp add: sdiv_nonneg)
  moreover have "0 \<le> n div d" using True assms by (simp add: pos_imp_zdiv_nonneg_iff)
  moreover have "n div d \<le> n" using True assms by (simp add: int_div_le_self)
  ultimately show ?thesis using assms by (simp add: int64_ok_def)
next
  case False
  then have e: "n sdiv d = - ((- n) div d)" using assms by (simp add: sdiv_neg)
  have "0 \<le> (- n) div d" using False assms by (simp add: pos_imp_zdiv_nonneg_iff)
  moreover have "(- n) div d \<le> - n" using False assms by (simp add: int_div_le_self)
  ultimately show ?thesis using assms e by (simp add: int64_ok_def)
qed

text \<open>
  The formula \<open>(a + d - 1) / d\<close> never falls below the ceiling of \<open>a / d\<close>: the quotient
  times \<open>d\<close> reaches \<open>a\<close>, whatever the sign of \<open>a\<close>.
\<close>

lemma ceil_upper:
  assumes "0 < (d::int)"
  shows "a \<le> ((a + d - 1) sdiv d) * d"
proof (cases "0 \<le> a + d - 1")
  case True
  have "(a + d - 1) mod d \<le> d - 1" using assms pos_mod_bound[of d "a + d - 1"] by simp
  moreover have "(a + d - 1) div d * d + (a + d - 1) mod d = a + d - 1" by simp
  ultimately have "a \<le> (a + d - 1) div d * d" by linarith
  then show ?thesis using True assms by (simp add: sdiv_nonneg)
next
  case False
  have "0 \<le> (- (a + d - 1)) mod d" using assms by simp
  moreover have "(- (a + d - 1)) div d * d + (- (a + d - 1)) mod d = - (a + d - 1)" by simp
  ultimately have "(- (a + d - 1)) div d * d \<le> - (a + d - 1)" by linarith
  then have "a \<le> - ((- (a + d - 1)) div d) * d" using assms by (simp add: algebra_simps)
  then show ?thesis using False assms by (simp add: sdiv_neg)
qed

text \<open>
  It is the ceiling exactly when the dividend \<open>a + d - 1\<close> is not negative, or when the
  truncation has nothing to cut off (\<open>d\<close> divides \<open>a - 1\<close>): one less than the quotient,
  times \<open>d\<close>, stays below \<open>a\<close> in these cases and in no other.
\<close>

lemma ceil_lower_iff:
  assumes "0 < (d::int)"
  shows "(((a + d - 1) sdiv d) - 1) * d < a \<longleftrightarrow> 0 \<le> a + d - 1 \<or> d dvd (a - 1)"
proof (cases "0 \<le> a + d - 1")
  case True
  have "0 \<le> (a + d - 1) mod d" using assms by simp
  moreover have "(a + d - 1) div d * d + (a + d - 1) mod d = a + d - 1" by simp
  moreover have "((a + d - 1) div d - 1) * d = (a + d - 1) div d * d - d"
    by (simp add: algebra_simps)
  ultimately have "((a + d - 1) div d - 1) * d < a" by linarith
  then show ?thesis using True assms by (simp add: sdiv_nonneg)
next
  case False
  define m where "m = - (a + d - 1)"
  have s: "(a + d - 1) sdiv d = - (m div d)" using False assms by (simp add: sdiv_neg m_def)
  have e: "m div d * d + m mod d = m" by simp
  have r: "0 \<le> m mod d" "m mod d < d" using assms by simp_all
  have "(- (m div d) - 1) * d < a \<longleftrightarrow> m mod d = 0"
  proof
    assume "(- (m div d) - 1) * d < a"
    then have "- (m div d * d) - d < a" by (simp add: algebra_simps)
    then show "m mod d = 0" using e r m_def by linarith
  next
    assume "m mod d = 0"
    then have "m div d * d = m" using e by simp
    then have "(- (m div d) - 1) * d = - m - d" by (simp add: algebra_simps)
    then show "(- (m div d) - 1) * d < a" by (simp add: m_def)
  qed
  moreover have "m mod d = 0 \<longleftrightarrow> d dvd (a - 1)"
  proof -
    have "d dvd m \<longleftrightarrow> d dvd (a - 1 + d)" unfolding m_def
      by (metis add.commute add_diff_eq diff_add_eq dvd_minus_iff)
    also have "\<dots> \<longleftrightarrow> d dvd (a - 1)" by simp
    finally show ?thesis by (simp add: dvd_eq_mod_eq_0)
  qed
  ultimately show ?thesis using False s by simp
qed

text \<open>
  It is never more than one above the ceiling: two less than the quotient, times \<open>d\<close>,
  stays below \<open>a\<close>.
\<close>

lemma ceil_lower2:
  assumes "0 < (d::int)"
  shows "((a + d - 1) sdiv d - 2) * d < a"
proof (cases "0 \<le> a + d - 1")
  case True
  then have "((a + d - 1) sdiv d - 1) * d < a" using assms by (simp add: ceil_lower_iff)
  moreover have "((a + d - 1) sdiv d - 2) * d = ((a + d - 1) sdiv d - 1) * d - d"
    by (simp add: algebra_simps)
  ultimately show ?thesis using assms by linarith
next
  case False
  define m where "m = - (a + d - 1)"
  have s: "(a + d - 1) sdiv d = - (m div d)" using False assms by (simp add: sdiv_neg m_def)
  have e: "m div d * d + m mod d = m" by simp
  have r: "m mod d < d" using assms by simp
  have "(- (m div d) - 2) * d = - (m div d * d) - 2 * d" by (simp add: algebra_simps)
  then have "(- (m div d) - 2) * d < a" using e r m_def by linarith
  then show ?thesis using s by simp
qed

lemma ceil_least:
  assumes "0 < (d::int)" "0 \<le> a + d - 1" "a \<le> q * d"
  shows "(a + d - 1) sdiv d \<le> q"
proof (rule ccontr)
  assume "\<not> (a + d - 1) sdiv d \<le> q"
  then have "q \<le> (a + d - 1) sdiv d - 1" by simp
  then have "q * d \<le> ((a + d - 1) sdiv d - 1) * d"
    using assms(1) by (intro mult_right_mono) simp_all
  moreover have "((a + d - 1) sdiv d - 1) * d < a"
    using assms(1,2) by (simp add: ceil_lower_iff)
  ultimately show False using assms(3) by linarith
qed

section \<open>The 64-bit solver against the unbounded one\<close>

lemma sint_word_of_int_ok: "int64_ok k \<Longrightarrow> sint (word_of_int k :: int64) = k"
  by (simp add: int64_ok_def sint_sbintrunc' signed_take_bit_int_eq_self)

lemma sint_denom:
  assumes "int64_ok (sint D * sint C - sint B)"
  shows "sint (D * C - B) = sint D * sint C - sint (B :: int64)"
proof -
  have "D * C - B = word_of_int (sint D * sint C - sint B)" by simp
  then show ?thesis using assms by (simp only: sint_word_of_int_ok)
qed

lemma sint_numer:
  assumes "int64_ok (sint A + sint D * sint C - sint B - 1)"
  shows "sint (A + D * C - B - 1) = sint A + sint D * sint C - sint (B :: int64) - 1"
proof -
  have "A + D * C - B - 1 = word_of_int (sint A + sint D * sint C - sint B - 1)" by simp
  then show ?thesis using assms by (simp only: sint_word_of_int_ok)
qed

text \<open>A divisor that passed the guard is neither \<open>0\<close> nor \<open>- 1\<close>, so the division returns.\<close>

lemma int64_div_guarded:
  assumes "0 <s b"
  shows "int64_div a b = Inr (word_of_int (sint a sdiv sint b))"
proof -
  have p: "0 < sint b" using assms by (simp add: word_sless_alt)
  have "b \<noteq> 0" using p by auto
  moreover have "b \<noteq> - 1" using p by auto
  ultimately show ?thesis by (simp add: int64_div_def)
qed

lemma solve_returns: "\<exists>r. solve A B C D = Inr r"
  by (simp add: solve_def int64_div_guarded)

text \<open>
  What \<open>solve\<close> returns in terms of the values the program itself computes, whether
  or not they wrapped around.
\<close>

lemma solve_not_positive_word:
  assumes "sint (D * C - B) \<le> 0"
  shows "solve A B C D = Inr (- 1)"
  using assms by (simp add: solve_def word_sless_alt)

lemma solve_positive_word:
  assumes "0 < sint (D * C - B)"
  shows "solve A B C D =
    Inr (word_of_int (sint (A + (D * C - B) - 1) sdiv sint (D * C - B)))"
proof -
  have e: "A + (D * C - B) - 1 = A + D * C - B - 1" by simp
  show ?thesis unfolding e using assms by (simp add: solve_def word_sless_alt int64_div_guarded)
qed

text \<open>The same in terms of the integers the arguments stand for, when nothing wrapped.\<close>

lemma solve_not_positive:
  assumes "int64_ok (sint D * sint C - sint B)" and "sint D * sint C - sint B \<le> 0"
  shows "solve A B C D = Inr (- 1)"
  using assms by (simp add: solve_def word_sless_alt sint_denom)

lemma solve_positive:
  assumes d: "int64_ok (sint D * sint C - sint B)"
    and n: "int64_ok (sint A + sint D * sint C - sint B - 1)"
    and p: "0 < sint D * sint C - sint B"
  shows "\<exists>r. solve A B C D = Inr r \<and>
    sint r = (sint A + sint D * sint C - sint B - 1) sdiv (sint D * sint C - sint B)"
proof -
  have g: "0 <s D * C - B" using d p by (simp add: word_sless_alt sint_denom)
  have "int64_ok ((sint A + sint D * sint C - sint B - 1) sdiv (sint D * sint C - sint B))"
    using n p by (rule sdiv_ok)
  then have "sint (word_of_int
      ((sint A + sint D * sint C - sint B - 1) sdiv (sint D * sint C - sint B)) :: int64) =
    (sint A + sint D * sint C - sint B - 1) sdiv (sint D * sint C - sint B)"
    by (rule sint_word_of_int_ok)
  moreover have "solve A B C D = Inr (word_of_int
      ((sint A + sint D * sint C - sint B - 1) sdiv (sint D * sint C - sint B)))"
    using g by (simp add: solve_def int64_div_guarded sint_denom [OF d] sint_numer [OF n])
  ultimately show ?thesis by simp
qed

lemma solve_sint:
  assumes d: "int64_ok (sint D * sint C - sint B)"
    and n: "int64_ok (sint A + sint D * sint C - sint B - 1)"
  shows "\<exists>r. solve A B C D = Inr r \<and> sint r = solve_int (sint A) (sint B) (sint C) (sint D)"
proof (cases "0 < sint D * sint C - sint B")
  case True
  then show ?thesis using solve_positive [OF d n True] by (simp add: solve_int_def)
next
  case False
  then have "solve A B C D = Inr (- 1)" using d by (simp add: solve_not_positive)
  then show ?thesis using False by (simp add: solve_int_def)
qed

section \<open>Reading a numeral, and printing one\<close>

lemma isspace_not_digit: "isspace c \<Longrightarrow> \<not> isdigit c"
  by (auto simp: isspace_def isdigit_def)

lemma isspace_not_sign: "isspace c \<Longrightarrow> c \<noteq> CHR ''-'' \<and> c \<noteq> CHR ''+''"
  by (auto simp: isspace_def)

lemma isdigit_not_sign: "isdigit c \<Longrightarrow> c \<noteq> CHR ''-'' \<and> c \<noteq> CHR ''+''"
  by (auto simp: isdigit_def)

lemma numeral_of_starts: "numeral_of t x \<Longrightarrow> t \<noteq> [] \<and> \<not> isspace (hd t)"
proof (cases t)
  case Nil
  assume "numeral_of t x"
  then show ?thesis using Nil by (simp add: numeral_of_def)
next
  case (Cons c cs)
  assume n: "numeral_of t x"
  have "\<not> isspace c"
  proof (cases "c = CHR ''-'' \<or> c = CHR ''+''")
    case True
    then show ?thesis using isspace_not_sign [of c] by blast
  next
    case False
    then have "isdigit c" using n Cons by (simp add: numeral_of_def)
    then show ?thesis using isspace_not_digit [of c] by blast
  qed
  then show ?thesis using Cons by simp
qed

lemma skip_space:
  assumes "list_all isspace w" "t \<noteq> []" "\<not> isspace (hd t)"
  shows "dropWhile isspace (w @ t @ u) = t @ u"
proof -
  have "dropWhile isspace (w @ t @ u) = dropWhile isspace (t @ u)"
    using assms(1) by (intro dropWhile_append2) (simp add: list_all_iff)
  also have "\<dots> = t @ u" using assms(2,3) by (cases t) simp_all
  finally show ?thesis .
qed

lemma take_digits:
  assumes "list_all isdigit ds" "takeWhile isdigit u = []"
  shows "takeWhile isdigit (ds @ u) = ds" and "dropWhile isdigit (ds @ u) = u"
proof -
  have a: "\<And>c. c \<in> set ds \<Longrightarrow> isdigit c" using assms(1) by (simp add: list_all_iff)
  show "takeWhile isdigit (ds @ u) = ds"
    using a assms(2) by (simp add: takeWhile_append2)
  have "dropWhile isdigit u = u" using assms(2) by (cases u) (auto split: if_splits)
  then show "dropWhile isdigit (ds @ u) = u"
    using a by (simp add: dropWhile_append2)
qed

lemma sint_int64_ok: "int64_ok (sint (x :: int64))"
  using sint_ge [of x] sint_lt [of x] by (simp add: int64_ok_def)

lemma read_digits:
  assumes ds: "ds \<noteq> []" "list_all isdigit ds" and u: "takeWhile isdigit u = []"
    and v: "(if neg then - int (dec_value 0 ds) else int (dec_value 0 ds)) = sint (x :: int64)"
  shows "(let ds' = takeWhile isdigit (ds @ u); rest = dropWhile isdigit (ds @ u) in
            if ds' = [] then (\<lparr>unread = rest, good = False\<rparr>, Some 0)
            else
              let v = (if neg then - int (dec_value 0 ds') else int (dec_value 0 ds')) in
              if 2 ^ 63 \<le> v then (\<lparr>unread = rest, good = False\<rparr>, Some (2 ^ 63 - 1))
              else if v < - (2 ^ 63) then (\<lparr>unread = rest, good = False\<rparr>, Some (- (2 ^ 63)))
              else (\<lparr>unread = rest, good = (rest \<noteq> [])\<rparr>, Some (word_of_int v)))
         = (\<lparr>unread = u, good = (u \<noteq> [])\<rparr>, Some x)"
proof -
  have r: "\<not> 2 ^ 63 \<le> sint x" "\<not> sint x < - (2 ^ 63)"
    using sint_int64_ok [of x] by (simp_all add: int64_ok_def)
  show ?thesis
    unfolding Let_def take_digits [OF ds(2) u] v using ds(1) r by simp
qed

text \<open>
  On a good stream, white space and then a numeral of \<open>x\<close>, followed by something that
  does not start with a digit, stores \<open>x\<close> and leaves what follows unread. The stream
  stays good unless the numeral ended the input.
\<close>

lemma read_int64_numeral:
  assumes t: "numeral_of t x" and w: "list_all isspace w" and u: "takeWhile isdigit u = []"
  shows "read_int64 \<lparr>unread = w @ t @ u, good = True\<rparr> y = (\<lparr>unread = u, good = (u \<noteq> [])\<rparr>, Some x)"
proof -
  obtain c cs where tc: "t = c # cs" using numeral_of_starts [OF t] by (cases t) auto
  have b: "dropWhile isspace (w @ t @ u) = c # cs @ u"
    using skip_space [OF w, of "c # cs" u] numeral_of_starts [OF t] tc by simp
  consider (minus) "c = CHR ''-''" | (plus) "c = CHR ''+''" | (digit) "c \<noteq> CHR ''-''" "c \<noteq> CHR ''+''"
    by blast
  then show ?thesis
  proof cases
    case minus
    then have h: "cs \<noteq> []" "list_all isdigit cs" "- int (dec_value 0 cs) = sint x"
      using t tc by (simp_all add: numeral_of_def)
    show ?thesis
      using read_digits [OF h(1,2) u, of True x] h(3) minus
      by (simp add: read_int64_def b Let_def)
  next
    case plus
    then have h: "cs \<noteq> []" "list_all isdigit cs" "int (dec_value 0 cs) = sint x"
      using t tc by (simp_all add: numeral_of_def)
    show ?thesis
      using read_digits [OF h(1,2) u, of False x] h(3) plus
      by (simp add: read_int64_def b Let_def)
  next
    case digit
    then have h: "list_all isdigit (c # cs)" "int (dec_value 0 (c # cs)) = sint x"
      using t tc by (simp_all add: numeral_of_def)
    show ?thesis
      using read_digits [OF _ h(1) u, of False x] h(2) digit
      by (simp add: read_int64_def b Let_def del: takeWhile.simps dropWhile.simps)
  qed
qed

lemma space_led:
  assumes "w \<noteq> []" "list_all isspace w"
  shows "takeWhile isdigit (w @ v) = []" and "w @ v \<noteq> []"
  using assms by (cases w; simp add: isspace_not_digit)+

lemma isdigit_digit_char: "n < 10 \<Longrightarrow> isdigit (digit_char n)"
  by (simp add: isdigit_def digit_char_def)

lemma digit_val_digit_char: "n < 10 \<Longrightarrow> digit_val (digit_char n) = n"
  by (simp add: digit_val_def digit_char_def)

text \<open>The digits printed for a natural number have that number as their value.\<close>

lemma dec_value_snoc: "dec_value acc (cs @ [c]) = 10 * dec_value acc cs + digit_val c"
  by (induction cs arbitrary: acc) simp_all

lemma show_nat_digits: "list_all isdigit (show_nat n)"
proof (induction n rule: show_nat.induct)
  case (1 n)
  show ?case
  proof (cases "n < 10")
    case True
    then show ?thesis by (simp add: show_nat.simps [of n] isdigit_digit_char)
  next
    case False
    then show ?thesis using 1 by (simp add: show_nat.simps [of n] isdigit_digit_char)
  qed
qed

lemma show_nat_nonempty: "show_nat n \<noteq> []"
  by (simp add: show_nat.simps [of n])

lemma dec_value_show_nat: "dec_value 0 (show_nat n) = n"
proof (induction n rule: show_nat.induct)
  case (1 n)
  show ?case
  proof (cases "n < 10")
    case True
    then show ?thesis by (simp add: show_nat.simps [of n] digit_val_digit_char)
  next
    case False
    then have "dec_value 0 (show_nat n) = 10 * (n div 10) + n mod 10"
      using 1 by (simp add: show_nat.simps [of n] dec_value_snoc digit_val_digit_char)
    then show ?thesis by simp
  qed
qed

lemma show_nat_head: "isdigit (hd (show_nat n))"
  using show_nat_digits [of n] show_nat_nonempty [of n] by (cases "show_nat n") simp_all

text \<open>
  What the program prints for \<open>x\<close> is a numeral of \<open>x\<close>: the output is the decimal
  representation, it reads back as the number, and every number has a well-formed token.
\<close>

lemma numeral_of_show_int64: "numeral_of (show_int64 x) x"
proof (cases "sint x < 0")
  case True
  then show ?thesis
    by (simp add: numeral_of_def show_int64_def show_nat_nonempty show_nat_digits
        dec_value_show_nat)
next
  case False
  obtain c cs where s: "show_nat (nat (sint x)) = c # cs"
    using show_nat_nonempty [of "nat (sint x)"] by (cases "show_nat (nat (sint x))") auto
  have d: "isdigit c" using show_nat_head [of "nat (sint x)"] s by simp
  have "list_all isdigit (c # cs)" "dec_value 0 (c # cs) = nat (sint x)"
    using show_nat_digits [of "nat (sint x)"] dec_value_show_nat [of "nat (sint x)"] s
    by simp_all
  then show ?thesis
    using False s isdigit_not_sign [OF d]
    by (simp add: numeral_of_def show_int64_def del: dec_value.simps)
qed

lemma newline_not_digit: "\<not> isdigit (CHR 0x0A)"
  by (simp add: isdigit_def)

lemma show_int64_one_line: "CHR 0x0A \<notin> set (show_int64 x)"
proof -
  have "CHR 0x0A \<notin> set (show_nat n)" for n
    using show_nat_digits [of n] newline_not_digit by (auto simp: list_all_iff)
  then show ?thesis by (simp add: show_int64_def)
qed

text \<open>What is printed for a number is its decimal representation.\<close>

lemma digit_char_zero: "digit_char 0 = CHR ''0''"
  by (simp add: digit_char_def char_of_eq_iff)

lemma digit_char_nonzero: "0 < n \<Longrightarrow> n < 10 \<Longrightarrow> digit_char n \<noteq> CHR ''0''"
  by (simp add: digit_char_def char_of_eq_iff take_bit_eq_mod)

lemma show_nat_hd_nonzero: "0 < n \<Longrightarrow> hd (show_nat n) \<noteq> CHR ''0''"
proof (induction n rule: show_nat.induct)
  case (1 n)
  show ?case
  proof (cases "n < 10")
    case True
    then show ?thesis using 1(2) by (simp add: show_nat.simps [of n] digit_char_nonzero)
  next
    case False
    then have "hd (show_nat (n div 10)) \<noteq> CHR ''0''" using 1(1) by simp
    then show ?thesis using False show_nat_nonempty [of "n div 10"]
      by (simp add: show_nat.simps [of n])
  qed
qed

lemma show_nat_plain: "plain_digits (show_nat n)"
proof (cases "n = 0")
  case True
  then show ?thesis
    by (simp add: plain_digits_def show_nat.simps [of 0] digit_char_zero isdigit_def)
next
  case False
  then show ?thesis
    by (simp add: plain_digits_def show_nat_nonempty show_nat_digits show_nat_hd_nonzero)
qed

lemma decimal_repr_show_int64: "decimal_repr (show_int64 x) (sint x)"
proof (cases "sint x < 0")
  case True
  then show ?thesis
    by (simp add: decimal_repr_def show_int64_def show_nat_plain dec_value_show_nat)
next
  case False
  obtain c cs where s: "show_nat (nat (sint x)) = c # cs"
    using show_nat_nonempty [of "nat (sint x)"] by (cases "show_nat (nat (sint x))") auto
  have "isdigit c" using show_nat_head [of "nat (sint x)"] s by simp
  then have m: "c \<noteq> CHR ''-''" using isdigit_not_sign by blast
  have "plain_digits (c # cs)" "dec_value 0 (c # cs) = nat (sint x)"
    using show_nat_plain [of "nat (sint x)"] dec_value_show_nat [of "nat (sint x)"] s
    by simp_all
  then show ?thesis
    using False s m by (simp add: decimal_repr_def show_int64_def del: dec_value.simps)
qed

text \<open>
  The decimal representation of a number is one string only: digits with no leading
  zero are what \<open>show_nat\<close> prints for their value.
\<close>

lemma digit_char_digit_val: "isdigit c \<Longrightarrow> digit_char (digit_val c) = c"
  by (simp add: isdigit_def digit_char_def digit_val_def)

lemma digit_val_less: "isdigit c \<Longrightarrow> digit_val c < 10"
  by (auto simp: isdigit_def digit_val_def)

lemma digit_val_pos: "isdigit c \<Longrightarrow> c \<noteq> CHR ''0'' \<Longrightarrow> 0 < digit_val c"
proof -
  assume d: "isdigit c" and z: "c \<noteq> CHR ''0''"
  have "of_char c \<noteq> (48 :: nat)"
  proof
    assume "of_char c = (48 :: nat)"
    then have "char_of (of_char c :: nat) = CHR ''0''" by (simp add: char_of_eq_iff)
    then show False using z by simp
  qed
  then show ?thesis using d by (simp add: isdigit_def digit_val_def)
qed

lemma dec_value_ge: "acc \<le> dec_value acc cs"
proof (induction cs arbitrary: acc)
  case Nil
  show ?case by simp
next
  case (Cons c cs)
  have "acc \<le> 10 * acc + digit_val c" by simp
  also have "\<dots> \<le> dec_value (10 * acc + digit_val c) cs" by (rule Cons.IH)
  finally show ?case by simp
qed

lemma dec_value_pos:
  assumes "ds \<noteq> []" "isdigit (hd ds)" "hd ds \<noteq> CHR ''0''"
  shows "0 < dec_value 0 ds"
proof -
  obtain c cs where e: "ds = c # cs" using assms(1) by (cases ds) auto
  have "0 < digit_val c" using assms(2,3) e by (simp add: digit_val_pos)
  also have "\<dots> \<le> dec_value (digit_val c) cs" by (rule dec_value_ge)
  finally show ?thesis using e by simp
qed

lemma show_nat_dec_value: "plain_digits ds \<Longrightarrow> show_nat (dec_value 0 ds) = ds"
proof (induction ds rule: rev_induct)
  case Nil
  then show ?case by (simp add: plain_digits_def)
next
  case (snoc c xs)
  have c: "isdigit c" using snoc.prems by (simp add: plain_digits_def)
  show ?case
  proof (cases "xs = []")
    case True
    then show ?thesis
      using c by (simp add: show_nat.simps [of "digit_val c"] digit_val_less digit_char_digit_val)
  next
    case False
    have h: "hd xs \<noteq> CHR ''0''" "list_all isdigit xs"
      using snoc.prems False by (cases xs; auto simp: plain_digits_def)+
    then have px: "plain_digits xs" using False by (simp add: plain_digits_def)
    have "isdigit (hd xs)" using h(2) False by (cases xs) simp_all
    then have v: "0 < dec_value 0 xs" using False h(1) by (simp add: dec_value_pos)
    define n where "n = 10 * dec_value 0 xs + digit_val c"
    have n10: "\<not> n < 10" using v by (simp add: n_def)
    have "n div 10 = dec_value 0 xs" "n mod 10 = digit_val c"
      using digit_val_less [OF c] by (simp_all add: n_def)
    then have "show_nat n = show_nat (dec_value 0 xs) @ [digit_char (digit_val c)]"
      using n10 by (simp add: show_nat.simps [of n])
    then show ?thesis
      using snoc.IH [OF px] c by (simp add: dec_value_snoc n_def digit_char_digit_val)
  qed
qed

lemma decimal_repr_unique:
  assumes "decimal_repr s (sint x)"
  shows "s = show_int64 x"
proof -
  obtain c cs where e: "s = c # cs" using assms by (cases s) (auto simp: decimal_repr_def)
  show ?thesis
  proof (cases "c = CHR ''-''")
    case True
    then have h: "sint x < 0" "plain_digits cs" "- int (dec_value 0 cs) = sint x"
      using assms e by (simp_all add: decimal_repr_def)
    have "dec_value 0 cs = nat (- sint x)" using h(3) by simp
    then have "show_nat (nat (- sint x)) = cs" using show_nat_dec_value [OF h(2)] by simp
    then show ?thesis using h(1) e True by (simp add: show_int64_def)
  next
    case False
    then have h: "0 \<le> sint x" "plain_digits s" "int (dec_value 0 s) = sint x"
      using assms e by (simp_all add: decimal_repr_def del: dec_value.simps)
    have "dec_value 0 s = nat (sint x)" using h(3) by simp
    then have "show_nat (nat (sint x)) = s" using show_nat_dec_value [OF h(2)] by simp
    then show ?thesis using h(1) by (simp add: show_int64_def)
  qed
qed

section \<open>The claims of the specification\<close>

text \<open>
  In the statements below \<open>sint D * sint C - sint B\<close> is the denominator \<open>D*C - B\<close> over
  the integers, and \<open>int64_ok\<close> says that an intermediate result of the program fits an
  \<^verbatim>\<open>int64_t\<close>, that is, that the 64-bit computation of it did not wrap around.
\<close>

subsection \<open>C1: ceiling division\<close>

text \<open>
  Claim C1 says that for \<open>D*C - B > 0\<close> the result is the ceiling of \<open>A / (D*C - B)\<close>:
  \<open>solve * (D*C - B) \<ge> A\<close> and \<open>(solve - 1) * (D*C - B) < A\<close>. The second
  inequality fails at \<open>A = - 4\<close>, \<open>B = 0\<close>, \<open>C = 3\<close>, \<open>D = 1\<close>, where nothing overflows:
  the denominator is \<open>3\<close>, the dividend \<open>- 4 + 3 - 1 = - 2\<close> is negative, the truncating
  division gives \<open>0\<close>, and \<open>(0 - 1) * 3 = - 3\<close> is not below \<open>- 4\<close> (the ceiling is \<open>- 1\<close>).
\<close>

theorem solve_minimality_counterexample:
  "int64_ok (sint (1 :: int64) * sint (3 :: int64) - sint (0 :: int64)) \<and>
   int64_ok (sint (- 4 :: int64) + sint (1 :: int64) * sint (3 :: int64) - sint (0 :: int64) - 1) \<and>
   0 < sint (1 :: int64) * sint (3 :: int64) - sint (0 :: int64) \<and>
   solve (- 4) 0 3 1 = Inr 0 \<and>
   solve_int (- 4) 0 3 1 = 0 \<and>
   \<not> (sint (0 :: int64) - 1) * (sint (1 :: int64) * sint (3 :: int64) - sint (0 :: int64))
       < sint (- 4 :: int64)"
  by (simp add: solve_def solve_int_def int64_div_def int64_ok_def word_sless_alt
      signed_divide_int_def)

text \<open>
  Claim C1, amended: for \<open>D*C - B > 0\<close>, with the denominator and the dividend
  \<open>A + D*C - B - 1\<close> representable, \<open>solve\<close> returns a number \<open>r\<close> with
  \<open>r * (D*C - B) \<ge> A\<close>; and \<open>(r - 1) * (D*C - B) < A\<close> holds exactly when the dividend
  is not negative or \<open>D*C - B\<close> divides \<open>A - 1\<close>. In every other case \<open>r\<close> is one more
  than the ceiling: \<open>(r - 2) * (D*C - B) < A \<le> (r - 1) * (D*C - B)\<close>.
\<close>

theorem solve_ceiling_bounds:
  assumes "int64_ok (sint D * sint C - sint B)"
    and "int64_ok (sint A + sint D * sint C - sint B - 1)"
    and "0 < sint D * sint C - sint B"
  shows "\<exists>r. solve A B C D = Inr r \<and>
    sint A \<le> sint r * (sint D * sint C - sint B) \<and>
    ((sint r - 1) * (sint D * sint C - sint B) < sint A \<longleftrightarrow>
       0 \<le> sint A + sint D * sint C - sint B - 1 \<or> (sint D * sint C - sint B) dvd (sint A - 1)) \<and>
    (\<not> (0 \<le> sint A + sint D * sint C - sint B - 1 \<or>
         (sint D * sint C - sint B) dvd (sint A - 1)) \<longrightarrow>
       (sint r - 2) * (sint D * sint C - sint B) < sint A \<and>
       sint A \<le> (sint r - 1) * (sint D * sint C - sint B))"
proof -
  define d where "d = sint D * sint C - sint B"
  have n: "sint A + sint D * sint C - sint B - 1 = sint A + d - 1" by (simp add: d_def)
  obtain r where r: "solve A B C D = Inr r" and v: "sint r = (sint A + d - 1) sdiv d"
    using solve_positive [OF assms] unfolding n d_def [symmetric] by blast
  have p: "0 < d" using assms(3) by (simp add: d_def)
  have u: "sint A \<le> sint r * d" unfolding v using p by (rule ceil_upper)
  have i: "(sint r - 1) * d < sint A \<longleftrightarrow> 0 \<le> sint A + d - 1 \<or> d dvd (sint A - 1)"
    unfolding v using p by (rule ceil_lower_iff)
  have l: "(sint r - 2) * d < sint A" unfolding v using p by (rule ceil_lower2)
  have o: "\<not> (0 \<le> sint A + d - 1 \<or> d dvd (sint A - 1)) \<longrightarrow>
      (sint r - 2) * d < sint A \<and> sint A \<le> (sint r - 1) * d"
    using i l by auto
  show ?thesis using r u i o unfolding n d_def [symmetric] by blast
qed

theorem solve_ceiling_bounds_witness:
  "int64_ok (sint (1 :: int64) * sint (3 :: int64) - sint (0 :: int64)) \<and>
   int64_ok (sint (- 5 :: int64) + sint (1 :: int64) * sint (3 :: int64) - sint (0 :: int64) - 1) \<and>
   0 < sint (1 :: int64) * sint (3 :: int64) - sint (0 :: int64) \<and>
   solve (- 5) 0 3 1 = Inr (- 1) \<and>
   sint (- 5 :: int64)
     \<le> sint (- 1 :: int64) * (sint (1 :: int64) * sint (3 :: int64) - sint (0 :: int64)) \<and>
   (sint (- 1 :: int64) - 1) * (sint (1 :: int64) * sint (3 :: int64) - sint (0 :: int64))
     < sint (- 5 :: int64) \<and>
   (sint (1 :: int64) * sint (3 :: int64) - sint (0 :: int64)) dvd (sint (- 5 :: int64) - 1) \<and>
   int64_ok (sint (3 :: int64) * sint (2 :: int64) - sint (0 :: int64)) \<and>
   int64_ok (sint (- 20 :: int64) + sint (3 :: int64) * sint (2 :: int64) - sint (0 :: int64) - 1) \<and>
   0 < sint (3 :: int64) * sint (2 :: int64) - sint (0 :: int64) \<and>
   \<not> 0 \<le> sint (- 20 :: int64) + sint (3 :: int64) * sint (2 :: int64) - sint (0 :: int64) - 1 \<and>
   \<not> (sint (3 :: int64) * sint (2 :: int64) - sint (0 :: int64)) dvd (sint (- 20 :: int64) - 1) \<and>
   solve (- 20) 0 2 3 = Inr (- 2) \<and>
   (sint (- 2 :: int64) - 2) * (sint (3 :: int64) * sint (2 :: int64) - sint (0 :: int64))
     < sint (- 20 :: int64) \<and>
   sint (- 20 :: int64)
     \<le> (sint (- 2 :: int64) - 1) * (sint (3 :: int64) * sint (2 :: int64) - sint (0 :: int64))"
  using solve_ceiling_bounds [of 1 3 0 "- 5"] solve_ceiling_bounds [of 3 2 0 "- 20"]
  by (simp add: solve_def int64_div_def int64_ok_def word_sless_alt signed_divide_int_def)

subsection \<open>C2: the sentinel\<close>

text \<open>
  Claim C2: for \<open>D*C - B \<le> 0\<close>, zero included, \<open>solve\<close> returns \<open>- 1\<close>. This holds
  of the value the program computes for \<open>D*C - B\<close>, for every four arguments; and it
  holds of \<open>D*C - B\<close> over the integers whenever that is representable.
\<close>

theorem solve_sentinel:
  "(sint (D * C - B) \<le> 0 \<longrightarrow> solve A B C D = Inr (- 1)) \<and>
   (int64_ok (sint D * sint C - sint B) \<and> sint D * sint C - sint B \<le> 0 \<longrightarrow>
      solve A B C D = Inr (- 1))"
  using solve_not_positive_word [of D C B A] solve_not_positive [of D C B A] by blast

theorem solve_sentinel_witness:
  "sint (3 * 2 - 6 :: int64) \<le> 0 \<and>
   int64_ok (sint (3 :: int64) * sint (2 :: int64) - sint (6 :: int64)) \<and>
   sint (3 :: int64) * sint (2 :: int64) - sint (6 :: int64) \<le> 0 \<and>
   solve 7 6 2 3 = Inr (- 1)"
  using solve_sentinel [of 3 2 6 7] by (simp add: int64_ok_def)

subsection \<open>C3: the formula\<close>

text \<open>
  Claim C3: with \<open>denom = D*C - B\<close>, if \<open>denom > 0\<close> then \<open>solve\<close> returns
  \<open>(A + denom - 1) / denom\<close>, the division truncating towards zero (\<open>sdiv\<close> on the
  integers). This holds of the values the program computes for \<open>denom\<close> and
  \<open>A + denom - 1\<close>, for every four arguments; and it holds of these two over the
  integers whenever they are representable.
\<close>

theorem solve_formula:
  "(0 < sint (D * C - B) \<longrightarrow>
      solve A B C D = Inr (word_of_int (sint (A + (D * C - B) - 1) sdiv sint (D * C - B)))) \<and>
   (int64_ok (sint D * sint C - sint B) \<and>
    int64_ok (sint A + (sint D * sint C - sint B) - 1) \<and>
    0 < sint D * sint C - sint B \<longrightarrow>
      (\<exists>r. solve A B C D = Inr r \<and>
        sint r = (sint A + (sint D * sint C - sint B) - 1) sdiv (sint D * sint C - sint B)))"
proof -
  have e: "sint A + (sint D * sint C - sint B) - 1 = sint A + sint D * sint C - sint B - 1"
    by simp
  show ?thesis
    using solve_positive_word [of D C B A] solve_positive [of D C B A] unfolding e by blast
qed

theorem solve_formula_witness:
  "0 < sint (3 * 2 - 0 :: int64) \<and>
   int64_ok (sint (3 :: int64) * sint (2 :: int64) - sint (0 :: int64)) \<and>
   int64_ok (sint (- 20 :: int64) + (sint (3 :: int64) * sint (2 :: int64) - sint (0 :: int64)) - 1) \<and>
   0 < sint (3 :: int64) * sint (2 :: int64) - sint (0 :: int64) \<and>
   solve (- 20) 0 2 3 = Inr (- 2) \<and>
   sint (- 2 :: int64) =
     (sint (- 20 :: int64) + (sint (3 :: int64) * sint (2 :: int64) - sint (0 :: int64)) - 1)
       sdiv (sint (3 :: int64) * sint (2 :: int64) - sint (0 :: int64))"
  using solve_formula [of 3 2 0 "- 20"]
  by (simp add: solve_def int64_div_def int64_ok_def word_sless_alt signed_divide_int_def)

subsection \<open>C4: the scenarios\<close>

text \<open>
  Claim C4: \<open>solve(10,2,3,4) = 1\<close>, \<open>solve(0,0,1,1) = 0\<close>, and \<open>solve(1,0,0,0) = - 1\<close>
  (a denominator of exactly \<open>0\<close> is not positive).
\<close>

theorem solve_scenarios:
  "solve 10 2 3 4 = Inr 1 \<and> solve 0 0 1 1 = Inr 0 \<and> solve 1 0 0 0 = Inr (- 1)"
  by (simp add: solve_def int64_div_def word_sless_alt signed_divide_int_def)

subsection \<open>C5: 64-bit arithmetic against unbounded arithmetic\<close>

text \<open>
  Claim C5: when \<open>D*C\<close>, \<open>D*C - B\<close> and \<open>A + D*C - B - 1\<close> are representable, the
  64-bit \<open>solve\<close> returns the value of \<open>solve_int\<close>, the same function over the
  unbounded integers. (With wrap-around arithmetic the proof needs the second and the
  third only.)
\<close>

theorem solve_refines_solve_int:
  assumes "int64_ok (sint D * sint C)"
    and "int64_ok (sint D * sint C - sint B)"
    and "int64_ok (sint A + sint D * sint C - sint B - 1)"
  shows "\<exists>r. solve A B C D = Inr r \<and> sint r = solve_int (sint A) (sint B) (sint C) (sint D)"
  using assms(2,3) by (rule solve_sint)

theorem solve_refines_solve_int_witness:
  "int64_ok (sint (100000 :: int64) * sint (100000 :: int64)) \<and>
   int64_ok (sint (100000 :: int64) * sint (100000 :: int64) - sint (1 :: int64)) \<and>
   int64_ok (sint (100000 :: int64) + sint (100000 :: int64) * sint (100000 :: int64)
     - sint (1 :: int64) - 1) \<and>
   solve 100000 1 100000 100000 = Inr 1 \<and>
   sint (1 :: int64) = solve_int 100000 1 100000 100000"
  using solve_refines_solve_int [of 100000 100000 1 100000]
  by (simp add: solve_def solve_int_def int64_div_def int64_ok_def word_sless_alt
      signed_divide_int_def)

subsection \<open>C6: no trap\<close>

text \<open>
  Claim C6: \<open>solve\<close> returns for every four arguments. Its one division stands behind
  the test \<open>D*C - B > 0\<close> on the very value it divides by, so the divisor is not zero
  (nor \<open>- 1\<close>), and neither trap of the division is a result of \<open>solve\<close>.
\<close>

theorem solve_no_trap:
  "(\<exists>r. solve A B C D = Inr r) \<and> solve A B C D \<noteq> Inl DivideByZero \<and>
   solve A B C D \<noteq> Inl DivideOverflow"
  using solve_returns [of A B C D] by auto

subsection \<open>C7: the program\<close>

text \<open>
  Claim C7: on an input of four numerals of \<open>A\<close>, \<open>B\<close>, \<open>C\<close>, \<open>D\<close> separated by white
  space (white space may come first, and anything that does not start with a digit may
  follow the fourth), the program writes the decimal representation of
  \<open>solve(A,B,C,D)\<close> and a newline, nothing else, and exits with code \<open>0\<close>. What it
  writes before the newline holds no newline, so the output is one line; it is a
  decimal representation of the result, and the only one.
\<close>

theorem main_prints_solve:
  assumes "numeral_of tA A" and "numeral_of tB B" and "numeral_of tC C" and "numeral_of tD D"
    and "list_all isspace w0"
    and "w1 \<noteq> []" and "list_all isspace w1"
    and "w2 \<noteq> []" and "list_all isspace w2"
    and "w3 \<noteq> []" and "list_all isspace w3"
    and "takeWhile isdigit u = []"
  shows "\<exists>r. solve A B C D = Inr r \<and>
    main (w0 @ tA @ w1 @ tB @ w2 @ tC @ w3 @ tD @ u) = Exit (show_int64 r @ [CHR 0x0A]) 0 \<and>
    CHR 0x0A \<notin> set (show_int64 r) \<and>
    decimal_repr (show_int64 r) (sint r) \<and>
    (\<forall>s. decimal_repr s (sint r) \<longrightarrow> s = show_int64 r)"
proof -
  let ?s1 = "w1 @ tB @ w2 @ tC @ w3 @ tD @ u"
  let ?s2 = "w2 @ tC @ w3 @ tD @ u"
  let ?s3 = "w3 @ tD @ u"
  have t1: "takeWhile isdigit ?s1 = []" "?s1 \<noteq> []"
    using assms(6,7) by (rule space_led)+
  have t2: "takeWhile isdigit ?s2 = []" "?s2 \<noteq> []"
    using assms(8,9) by (rule space_led)+
  have t3: "takeWhile isdigit ?s3 = []" "?s3 \<noteq> []"
    using assms(10,11) by (rule space_led)+
  have r1: "read_int64 \<lparr>unread = w0 @ tA @ ?s1, good = True\<rparr> None =
      (\<lparr>unread = ?s1, good = True\<rparr>, Some A)"
    using read_int64_numeral [OF assms(1) assms(5) t1(1), of None] t1(2) by simp
  have r2: "read_int64 \<lparr>unread = ?s1, good = True\<rparr> None =
      (\<lparr>unread = ?s2, good = True\<rparr>, Some B)"
    using read_int64_numeral [OF assms(2) assms(7) t2(1), of None] t2(2) by simp
  have r3: "read_int64 \<lparr>unread = ?s2, good = True\<rparr> None =
      (\<lparr>unread = ?s3, good = True\<rparr>, Some C)"
    using read_int64_numeral [OF assms(3) assms(9) t3(1), of None] t3(2) by simp
  have r4: "read_int64 \<lparr>unread = ?s3, good = True\<rparr> None =
      (\<lparr>unread = u, good = (u \<noteq> [])\<rparr>, Some D)"
    using read_int64_numeral [OF assms(4) assms(11) assms(12), of None] by simp
  obtain r where r: "solve A B C D = Inr r" using solve_returns by blast
  have "main (w0 @ tA @ ?s1) = Exit (show_int64 r @ [CHR 0x0A]) 0"
    by (simp add: main_def r1 r2 r3 r4 r)
  moreover have "\<forall>s. decimal_repr s (sint r) \<longrightarrow> s = show_int64 r"
    by (blast intro: decimal_repr_unique)
  ultimately show ?thesis
    using r show_int64_one_line [of r] decimal_repr_show_int64 [of r] by blast
qed

theorem main_prints_solve_witness:
  "numeral_of ''100'' 100 \<and> numeral_of ''0'' 0 \<and> numeral_of ''+2'' 2 \<and> numeral_of ''3'' 3 \<and>
   numeral_of ''-20'' (- 20) \<and> numeral_of ''2'' 2 \<and>
   list_all isspace [] \<and> list_all isspace '' '' \<and> list_all isspace [CHR 0x0A] \<and>
   list_all isspace [CHR 0x09, CHR '' ''] \<and>
   takeWhile isdigit [CHR 0x0A] = [] \<and> takeWhile isdigit [] = [] \<and>
   solve 100 0 2 3 = Inr 17 \<and>
   main (''100 0'' @ [CHR 0x0A] @ ''+2'' @ [CHR 0x09] @ '' 3'' @ [CHR 0x0A])
     = Exit (''17'' @ [CHR 0x0A]) 0 \<and>
   decimal_repr ''17'' (sint (17 :: int64)) \<and>
   solve (- 20) 0 2 3 = Inr (- 2) \<and>
   main ''-20 0 2 3'' = Exit (''-2'' @ [CHR 0x0A]) 0 \<and>
   decimal_repr ''-2'' (sint (- 2 :: int64))"
proof -
  have n: "numeral_of ''100'' 100" "numeral_of ''0'' 0" "numeral_of ''+2'' 2"
    "numeral_of ''3'' 3" "numeral_of ''-20'' (- 20)" "numeral_of ''2'' 2"
    by (simp_all add: numeral_of_def isdigit_def digit_val_def)
  have w: "list_all isspace []" "list_all isspace '' ''" "list_all isspace [CHR 0x0A]"
    "list_all isspace [CHR 0x09, CHR '' '']"
    by (simp_all add: isspace_def)
  have u: "takeWhile isdigit [CHR 0x0A] = []" "takeWhile isdigit [] = []"
    by (simp_all add: isdigit_def)
  have s: "solve 100 0 2 3 = Inr 17" "solve (- 20) 0 2 3 = Inr (- 2)"
    by (simp_all add: solve_def int64_div_def word_sless_alt signed_divide_int_def)
  have p: "show_int64 17 = ''17''" "show_int64 (- 2) = ''-2''"
    by (simp_all add: show_int64_def show_nat.simps [of 17] show_nat.simps [of 2]
        show_nat.simps [of "Suc 0"] digit_char_def char_of_eq_iff)
  show ?thesis
    using main_prints_solve [OF n(1,2,3,4) w(1) _ w(2) _ w(3) _ w(4) u(1)]
      main_prints_solve [OF n(5,2,6,4) w(1) _ w(2) _ w(2) _ w(2) u(2)]
      n w u s p by simp
qed

subsection \<open>C8: the least quotient for a non-negative \<open>A\<close>\<close>

text \<open>
  Claim C8: for \<open>A \<ge> 0\<close> and \<open>D*C - B > 0\<close>, the intermediates representable, \<open>solve\<close>
  returns the least integer \<open>q\<close> with \<open>q * (D*C - B) \<ge> A\<close>: it satisfies the inequality,
  and every integer that satisfies it is at least as large.
\<close>

theorem solve_least_nonneg:
  assumes "0 \<le> sint A"
    and "0 < sint D * sint C - sint B"
    and "int64_ok (sint D * sint C - sint B)"
    and "int64_ok (sint A + sint D * sint C - sint B - 1)"
  shows "\<exists>r. solve A B C D = Inr r \<and>
    sint A \<le> sint r * (sint D * sint C - sint B) \<and>
    (\<forall>q. sint A \<le> q * (sint D * sint C - sint B) \<longrightarrow> sint r \<le> q)"
proof -
  define d where "d = sint D * sint C - sint B"
  have n: "sint A + sint D * sint C - sint B - 1 = sint A + d - 1" by (simp add: d_def)
  obtain r where r: "solve A B C D = Inr r" and v: "sint r = (sint A + d - 1) sdiv d"
    using solve_positive [OF assms(3,4,2)] unfolding n d_def [symmetric] by blast
  have p: "0 < d" using assms(2) by (simp add: d_def)
  have z: "0 \<le> sint A + d - 1" using assms(1) p by simp
  have "sint A \<le> sint r * d" unfolding v using p by (rule ceil_upper)
  moreover have "\<forall>q. sint A \<le> q * d \<longrightarrow> sint r \<le> q"
    unfolding v using p z by (blast intro: ceil_least)
  ultimately show ?thesis using r unfolding d_def [symmetric] by blast
qed

theorem solve_least_nonneg_witness:
  "0 \<le> sint (10 :: int64) \<and>
   0 < sint (4 :: int64) * sint (3 :: int64) - sint (9 :: int64) \<and>
   int64_ok (sint (4 :: int64) * sint (3 :: int64) - sint (9 :: int64)) \<and>
   int64_ok (sint (10 :: int64) + sint (4 :: int64) * sint (3 :: int64) - sint (9 :: int64) - 1) \<and>
   solve 10 9 3 4 = Inr 4 \<and>
   sint (10 :: int64) \<le> sint (4 :: int64) * (sint (4 :: int64) * sint (3 :: int64) - sint (9 :: int64)) \<and>
   \<not> sint (10 :: int64) \<le> 3 * (sint (4 :: int64) * sint (3 :: int64) - sint (9 :: int64))"
  using solve_least_nonneg [of 10 4 3 9]
  by (simp add: solve_def int64_div_def int64_ok_def word_sless_alt signed_divide_int_def)

subsection \<open>C9: the sentinel is also a quotient\<close>

text \<open>
  Claim C9: there are arguments with \<open>D*C - B > 0\<close> for which \<open>solve\<close> returns \<open>- 1\<close>,
  such as \<open>A = - 1\<close>, \<open>B = 0\<close>, \<open>C = 1\<close>, \<open>D = 1\<close> (denominator \<open>1\<close>, quotient
  \<open>(- 1 + 1 - 1) / 1 = - 1\<close>, nothing overflows): a result of \<open>- 1\<close> does not tell that
  \<open>D*C - B \<le> 0\<close>.
\<close>

theorem solve_sentinel_ambiguous:
  "0 < sint (1 :: int64) * sint (1 :: int64) - sint (0 :: int64) \<and>
   solve (- 1) 0 1 1 = Inr (- 1) \<and>
   (\<exists>A B C D. 0 < sint D * sint C - sint B \<and> int64_ok (sint D * sint C - sint B) \<and>
      int64_ok (sint A + sint D * sint C - sint B - 1) \<and> solve A B C D = Inr (- 1))"
proof -
  have c: "0 < sint (1 :: int64) * sint (1 :: int64) - sint (0 :: int64) \<and>
      int64_ok (sint (1 :: int64) * sint (1 :: int64) - sint (0 :: int64)) \<and>
      int64_ok (sint (- 1 :: int64) + sint (1 :: int64) * sint (1 :: int64) - sint (0 :: int64) - 1) \<and>
      solve (- 1) 0 1 1 = Inr (- 1)"
    by (simp add: solve_def int64_div_def int64_ok_def word_sless_alt signed_divide_int_def)
  then show ?thesis by blast
qed

subsection \<open>C10: symmetry in \<open>C\<close> and \<open>D\<close>\<close>

text \<open>
  Claim C10: \<open>solve(A, B, C, D) = solve(A, B, D, C)\<close> for every four arguments, since
  \<open>C\<close> and \<open>D\<close> enter only through their product; in 64-bit arithmetic and over
  the unbounded integers alike.
\<close>

theorem solve_symmetric:
  "solve A B C D = solve A B D C \<and> solve_int a b c d = solve_int a b d c"
  by (simp add: solve_def solve_int_def mult.commute)

end
